theory Spec2Isabelle
  imports Complex_Main
begin

section \<open>The graph: nodes held in a store, addressed by reference\<close>

text \<open>
  Modelled from the spec: the node classes of \<open>beanmachine.ppl.compiler.bmg_nodes\<close>
  (module \<open>bn\<close> of the fixer) are not part of the sources at hand. The spec describes a node
  as a stable identity, a kind tag (Log, Exp, MultiAdd, LogSumExp, Constant, ...) and an
  ordered sequence of input node references. A Python object reference is a \<open>node_ref\<close>; the
  object it denotes is found in the builder's store. Unary operator nodes carry one operand,
  a binary addition two, the n-ary nodes an ordered list.
\<close>

type_synonym node_ref = nat

datatype BMGNode =
    ConstantNode real
  | ExpNode node_ref
  | LogNode node_ref
  | AdditionNode node_ref node_ref
  | MultiAdditionNode "node_ref list"
  | LogSumExpNode "node_ref list"

fun inputs :: "BMGNode \<Rightarrow> node_ref list" where
  "inputs (ConstantNode v) = []"
| "inputs (ExpNode a) = [a]"
| "inputs (LogNode a) = [a]"
| "inputs (AdditionNode l r) = [l, r]"
| "inputs (MultiAdditionNode xs) = xs"
| "inputs (LogSumExpNode xs) = xs"

text \<open>
  Modelled from the spec: \<open>BMGraphBuilder\<close> is not part of the sources at hand. It is the
  arena of the nodes built so far: the node with reference \<open>r\<close> is entry \<open>r\<close> of the list,
  and an entry is \<open>None\<close> once the node has been dropped. A reference outside the arena
  denotes no object, as Python's \<open>None\<close> does.
\<close>

type_synonym BMGraphBuilder = "BMGNode option list"

definition node_at :: "BMGraphBuilder \<Rightarrow> node_ref \<Rightarrow> BMGNode option" where
  "node_at g r = (if r < length g then g ! r else None)"

text \<open>
  Modelled from the spec: \<open>LatticeTyper\<close>, the memoized map from a node to its abstract
  value type, is not part of the sources at hand.
\<close>

datatype AbstractType = ScalarReal | PositiveReal | Probability | Matrix nat nat

type_synonym LatticeTyper = "node_ref \<rightharpoonup> AbstractType"

text \<open>
  \<open>ProblemFixerBase.__init__(self, bmg, typer)\<close> stores the two collaborators in the fixer
  object (\<open>self._bmg\<close> and \<open>self._typer\<close>).
\<close>

record LogSumExpFixer =
  bmg :: BMGraphBuilder
  typer :: LatticeTyper

datatype error = AssertionError | AttributeError

subsection \<open>Attribute access and \<open>isinstance\<close> through a reference\<close>

definition isinstance_ExpNode :: "BMGraphBuilder \<Rightarrow> node_ref \<Rightarrow> bool" where
  "isinstance_ExpNode g r = (case node_at g r of Some (ExpNode a) \<Rightarrow> True | _ \<Rightarrow> False)"

definition isinstance_LogNode :: "BMGraphBuilder \<Rightarrow> node_ref \<Rightarrow> bool" where
  "isinstance_LogNode g r = (case node_at g r of Some (LogNode a) \<Rightarrow> True | _ \<Rightarrow> False)"

definition isinstance_MultiAdditionNode :: "BMGraphBuilder \<Rightarrow> node_ref \<Rightarrow> bool" where
  "isinstance_MultiAdditionNode g r =
     (case node_at g r of Some (MultiAdditionNode xs) \<Rightarrow> True | _ \<Rightarrow> False)"

text \<open>\<open>n.inputs\<close>: every node has an input list; there is none to read without an object.\<close>

definition inputs_of :: "BMGraphBuilder \<Rightarrow> node_ref \<Rightarrow> error + node_ref list" where
  "inputs_of g r = (case node_at g r of None \<Rightarrow> Inl AttributeError | Some nd \<Rightarrow> Inr (inputs nd))"

text \<open>\<open>n.operand\<close>: the attribute of the unary operator nodes.\<close>

definition operand :: "BMGraphBuilder \<Rightarrow> node_ref \<Rightarrow> error + node_ref" where
  "operand g r =
     (case node_at g r of
        Some (ExpNode a) \<Rightarrow> Inr a
      | Some (LogNode a) \<Rightarrow> Inr a
      | _ \<Rightarrow> Inl AttributeError)"

section \<open>The fixer \<open>LogSumExpFixer\<close> (fix\_logsumexp.py)\<close>

text \<open>
  The methods \<open>_is_exp_input\<close>, \<open>_needs_fixing\<close> and \<open>_get_replacement\<close> are written here
  without the leading underscore.
\<close>

definition is_exp_input :: "LogSumExpFixer \<Rightarrow> node_ref \<Rightarrow> error + bool" where
  "is_exp_input self n =
     (case inputs_of (bmg self) n of
        Inl e \<Rightarrow> Inl e
      | Inr xs \<Rightarrow> Inr (list_all (isinstance_ExpNode (bmg self)) xs))"

definition can_be_log_sum_exp :: "LogSumExpFixer \<Rightarrow> node_ref \<Rightarrow> error + bool" where
  "can_be_log_sum_exp self n =
     (case operand (bmg self) n of
        Inl e \<Rightarrow> Inl e
      | Inr oper \<Rightarrow>
          if isinstance_MultiAdditionNode (bmg self) oper then is_exp_input self oper
          else Inr False)"

definition needs_fixing :: "LogSumExpFixer \<Rightarrow> node_ref \<Rightarrow> error + bool" where
  "needs_fixing self n =
     (if isinstance_LogNode (bmg self) n then can_be_log_sum_exp self n else Inr False)"

text \<open>
  Modelled from the spec: \<open>BMGraphBuilder.add_logsumexp\<close> is not part of the sources at hand.
  The spec gives the builder's interface as \<open>add_node(kind, inputs...) -> NodeRef\<close>, which
  "constructs and interns a new node", and says that the fixer "constructs a single new
  LogSumExp-kind node over that extracted operand list via the Graph Builder": the node is
  stored at the next free reference, which is returned.
\<close>

definition add_logsumexp :: "BMGraphBuilder \<Rightarrow> node_ref list \<Rightarrow> node_ref \<times> BMGraphBuilder" where
  "add_logsumexp g xs = (length g, g @ [Some (LogSumExpNode xs)])"

text \<open>
  The loop of \<open>_get_replacement\<close>:
  \<^verbatim>\<open>for c in n.operand.inputs: assert isinstance(c, bn.ExpNode); acc.append(c.operand)\<close>
\<close>

fun collect_operands ::
  "BMGraphBuilder \<Rightarrow> node_ref list \<Rightarrow> node_ref list \<Rightarrow> error + node_ref list" where
  "collect_operands g [] acc = Inr acc"
| "collect_operands g (c # cs) acc =
     (if \<not> isinstance_ExpNode g c then Inl AssertionError
      else case operand g c of
             Inl e \<Rightarrow> Inl e
           | Inr a \<Rightarrow> collect_operands g cs (acc @ [a]))"

text \<open>
  The declared result is \<open>Optional[bn.BMGNode]\<close>; the builder is updated by the call, so the
  fixer is returned with it.
\<close>

definition get_replacement ::
  "LogSumExpFixer \<Rightarrow> node_ref \<Rightarrow> error + (node_ref option \<times> LogSumExpFixer)" where
  "get_replacement self n =
     (if \<not> isinstance_LogNode (bmg self) n then Inl AssertionError
      else case can_be_log_sum_exp self n of
        Inl e \<Rightarrow> Inl e
      | Inr ok \<Rightarrow>
          if \<not> ok then Inl AssertionError
          else (case operand (bmg self) n of
            Inl e \<Rightarrow> Inl e
          | Inr oper \<Rightarrow>
              (case inputs_of (bmg self) oper of
                 Inl e \<Rightarrow> Inl e
               | Inr cs \<Rightarrow>
                   (case collect_operands (bmg self) cs [] of
                      Inl e \<Rightarrow> Inl e
                    | Inr acc \<Rightarrow>
                        if length acc \<noteq> length cs then Inl AssertionError
                        else (case add_logsumexp (bmg self) acc of
                                (r, g') \<Rightarrow> Inr (Some r, self\<lparr>bmg := g'\<rparr>))))))"

section \<open>The rewrite engine\<close>

text \<open>
  Modelled from the spec: \<open>ProblemFixerBase\<close> (fix\_problem.py) and the graph's mutation
  surface are not part of the sources at hand. The spec: \<open>consumers_of(NodeRef)\<close> is the set
  of nodes that use a node as an input; \<open>replace(old, new)\<close> "rewires every consumer of A to
  reference B instead, then A is dropped if no remaining consumer references it".
\<close>

definition consumers_of :: "BMGraphBuilder \<Rightarrow> node_ref \<Rightarrow> node_ref list" where
  "consumers_of g a =
     filter (\<lambda>m. case node_at g m of Some nd \<Rightarrow> a \<in> set (inputs nd) | None \<Rightarrow> False)
       [0..<length g]"

definition rewire :: "node_ref \<Rightarrow> node_ref \<Rightarrow> node_ref \<Rightarrow> node_ref" where
  "rewire old new i = (if i = old then new else i)"

fun rewire_node :: "node_ref \<Rightarrow> node_ref \<Rightarrow> BMGNode \<Rightarrow> BMGNode" where
  "rewire_node old new (ConstantNode v) = ConstantNode v"
| "rewire_node old new (ExpNode a) = ExpNode (rewire old new a)"
| "rewire_node old new (LogNode a) = LogNode (rewire old new a)"
| "rewire_node old new (AdditionNode l r) = AdditionNode (rewire old new l) (rewire old new r)"
| "rewire_node old new (MultiAdditionNode xs) = MultiAdditionNode (map (rewire old new) xs)"
| "rewire_node old new (LogSumExpNode xs) = LogSumExpNode (map (rewire old new) xs)"

definition replace :: "BMGraphBuilder \<Rightarrow> node_ref \<Rightarrow> node_ref \<Rightarrow> BMGraphBuilder" where
  "replace g old new =
     (let g1 = map (map_option (rewire_node old new)) g
      in if consumers_of g1 old = [] then g1[old := None] else g1)"

text \<open>
  Modelled from the spec, for one visited node \<open>n\<close>: the engine "evaluates the fixer's
  \<open>needs_fixing(n)\<close> predicate. If true, calls \<open>get_replacement(n)\<close>, which must return
  either a replacement node or no replacement possible (...) a fatal defect (...). If a
  replacement is returned and differs in identity from \<open>n\<close>, the engine performs
  \<open>graph.replace(n, replacement)\<close>". An exception raised by the fixer ends the step.
\<close>

datatype fatal = FixerContradiction | UnboundedRewriting | Raised error

text \<open>The step returns the fixer and whether a replacement was performed.\<close>

definition fix_node :: "LogSumExpFixer \<Rightarrow> node_ref \<Rightarrow> fatal + (LogSumExpFixer \<times> bool)" where
  "fix_node self n =
     (case needs_fixing self n of
        Inl e \<Rightarrow> Inl (Raised e)
      | Inr b \<Rightarrow>
          if \<not> b then Inr (self, False)
          else (case get_replacement self n of
                  Inl e \<Rightarrow> Inl (Raised e)
                | Inr (None, self') \<Rightarrow> Inl FixerContradiction
                | Inr (Some r, self') \<Rightarrow>
                    if r \<noteq> n then Inr (self'\<lparr>bmg := replace (bmg self') n r\<rparr>, True)
                    else Inr (self', False)))"

text \<open>
  Modelled from the spec: one traversal pass visits the nodes of the graph in the order the
  graph gives (\<open>topological_order()\<close>, here the list \<open>ns\<close> taken when the pass starts) and
  counts the replacements. A fatal error ends the pass: "there is no partial application".
\<close>

fun fix_pass :: "LogSumExpFixer \<Rightarrow> node_ref list \<Rightarrow> fatal + (LogSumExpFixer \<times> nat)" where
  "fix_pass self [] = Inr (self, 0)"
| "fix_pass self (n # ns) =
     (case fix_node self n of
        Inl e \<Rightarrow> Inl e
      | Inr (self', replaced) \<Rightarrow>
          (case fix_pass self' ns of
             Inl e \<Rightarrow> Inl e
           | Inr (out, k) \<Rightarrow> Inr (out, if replaced then Suc k else k)))"

text \<open>
  Modelled from the spec: \<open>run\<close> "repeats a full traversal pass until a pass produces zero
  replacements (fixpoint)"; "a bound on total passes (...) should be enforced defensively",
  and exceeding it is the fatal error of unbounded rewriting. The traversal order of the
  graph and the bound are parameters; the result is the fixer and the number of
  replacements of the run.
\<close>

fun run ::
  "(BMGraphBuilder \<Rightarrow> node_ref list) \<Rightarrow> nat \<Rightarrow> LogSumExpFixer \<Rightarrow> fatal + (LogSumExpFixer \<times> nat)"
  where
  "run topological_order 0 self = Inl UnboundedRewriting"
| "run topological_order (Suc max_passes) self =
     (case fix_pass self (topological_order (bmg self)) of
        Inl e \<Rightarrow> Inl e
      | Inr (self', k) \<Rightarrow>
          if k = 0 then Inr (self', 0)
          else (case run topological_order max_passes self' of
                  Inl e \<Rightarrow> Inl e
                | Inr (out, t) \<Rightarrow> Inr (out, k + t)))"

section \<open>\<open>SingleSiteInference\<close> (single\_site\_inference.py)\<close>

text \<open>
  The proposer classes (\<open>BaseSingleSiteMHProposer\<close> and its subclasses), \<open>RVIdentifier\<close>
  and \<open>SimpleWorld\<close> are not part of the sources at hand; they are type parameters. Calling
  the class \<open>self.proposer_class(node, **self.inference_args)\<close> instantiates it: a new
  object, which records its class and the arguments it was made with, is allocated at the
  next free address of the heap of proposer objects. The heap is thereby the record of every
  construction.
\<close>

record ('rv, 'c, 'k) proposer =
  p_class :: 'c
  p_node :: 'rv
  p_args :: 'k

type_synonym proposer_ref = nat

type_synonym ('rv, 'c, 'k) heap = "('rv, 'c, 'k) proposer list"

text \<open>
  \<open>__init__\<close> stores the class and the keyword arguments and starts with the empty
  dictionary \<open>self._proposers\<close>, the field \<open>proposers\<close> here.
\<close>

record ('rv, 'c, 'k) SingleSiteInference =
  proposer_class :: 'c
  inference_args :: 'k
  proposers :: "'rv \<rightharpoonup> proposer_ref"

datatype lookup_error = KeyError

definition init :: "'c \<Rightarrow> 'k \<Rightarrow> ('rv, 'c, 'k) SingleSiteInference" where
  "init cls kwargs = \<lparr>proposer_class = cls, inference_args = kwargs, proposers = Map.empty\<rparr>"

text \<open>Instantiation of the proposer class.\<close>

definition construct ::
  "'c \<Rightarrow> 'rv \<Rightarrow> 'k \<Rightarrow> ('rv, 'c, 'k) heap \<Rightarrow> proposer_ref \<times> ('rv, 'c, 'k) heap" where
  "construct cls node kwargs h =
     (length h, h @ [\<lparr>p_class = cls, p_node = node, p_args = kwargs\<rparr>])"

text \<open>
  The loop of \<open>get_proposers\<close> over \<open>target_rvs\<close>, a Python set, given as the list of its
  elements in the order of iteration. Reading \<open>self._proposers[node]\<close> raises \<open>KeyError\<close>
  when the key is absent.
\<close>

fun get_proposers_loop ::
  "('rv, 'c, 'k) SingleSiteInference \<Rightarrow> ('rv, 'c, 'k) heap \<Rightarrow> 'rv list \<Rightarrow> proposer_ref list \<Rightarrow>
   lookup_error + (proposer_ref list \<times> ('rv, 'c, 'k) SingleSiteInference \<times> ('rv, 'c, 'k) heap)"
  where
  "get_proposers_loop self h [] acc = Inr (acc, self, h)"
| "get_proposers_loop self h (node # rest) acc =
     (case (if proposers self node = None
            then (case construct (proposer_class self) node (inference_args self) h of
                    (p, h') \<Rightarrow> (self\<lparr>proposers := (proposers self)(node \<mapsto> p)\<rparr>, h'))
            else (self, h)) of
        (self1, h1) \<Rightarrow>
          (case proposers self1 node of
             None \<Rightarrow> Inl KeyError
           | Some p \<Rightarrow> get_proposers_loop self1 h1 rest (acc @ [p])))"

definition get_proposers ::
  "('rv, 'c, 'k) SingleSiteInference \<Rightarrow> ('rv, 'c, 'k) heap \<Rightarrow> 'w \<Rightarrow> 'rv list \<Rightarrow> int \<Rightarrow>
   lookup_error + (proposer_ref list \<times> ('rv, 'c, 'k) SingleSiteInference \<times> ('rv, 'c, 'k) heap)"
  where
  "get_proposers self h world target_rvs num_adaptive_sample =
     get_proposers_loop self h target_rvs []"

text \<open>A sequence of calls of \<open>get_proposers\<close> on one inference object.\<close>

fun calls ::
  "('rv, 'c, 'k) SingleSiteInference \<Rightarrow> ('rv, 'c, 'k) heap \<Rightarrow> ('w \<times> 'rv list \<times> int) list \<Rightarrow>
   lookup_error + (proposer_ref list list \<times> ('rv, 'c, 'k) SingleSiteInference \<times> ('rv, 'c, 'k) heap)"
  where
  "calls self h [] = Inr ([], self, h)"
| "calls self h ((world, target_rvs, num_adaptive_sample) # rest) =
     (case get_proposers self h world target_rvs num_adaptive_sample of
        Inl e \<Rightarrow> Inl e
      | Inr (ps, self', h') \<Rightarrow>
          (case calls self' h' rest of
             Inl e \<Rightarrow> Inl e
           | Inr (pss, self'', h'') \<Rightarrow> Inr (ps # pss, self'', h'')))"

text \<open>
  The invariant of the memo table, for a heap whose first \<open>k\<close> objects were there before
  the inference object: the objects made since are one per key of \<open>self._proposers\<close>, and
  each key refers to the object made for it.
\<close>

definition memo_inv ::
  "nat \<Rightarrow> ('rv, 'c, 'k) SingleSiteInference \<Rightarrow> ('rv, 'c, 'k) heap \<Rightarrow> bool" where
  "memo_inv k self h \<longleftrightarrow>
     k \<le> length h \<and>
     distinct (map p_node (drop k h)) \<and>
     set (map p_node (drop k h)) = dom (proposers self) \<and>
     (\<forall>rv p. proposers self rv = Some p \<longrightarrow>
        k \<le> p \<and> p < length h \<and>
        h ! p = \<lparr>p_class = proposer_class self, p_node = rv, p_args = inference_args self\<rparr>)"

section \<open>The pattern and example graphs\<close>

text \<open>The pattern of the fixer, stated on the store and without reference to the methods.\<close>

definition log_of_sum_of_exps :: "BMGraphBuilder \<Rightarrow> node_ref \<Rightarrow> bool" where
  "log_of_sum_of_exps g n =
     (case node_at g n of
        Some (LogNode oper) \<Rightarrow>
          (case node_at g oper of
             Some (MultiAdditionNode xs) \<Rightarrow>
               list_all (isinstance_ExpNode g) xs
           | _ \<Rightarrow> False)
      | _ \<Rightarrow> False)"

text \<open>
  The worked example of the spec: \<open>a\<close>, \<open>b\<close>, \<open>c\<close> at references 0, 1, 2, their
  exponentials at 3, 4, 5, the n-ary sum at 6 and its logarithm at 7. Node 8 is a consumer of
  \<open>Exp(a)\<close> and of the logarithm that lies outside the pattern.
\<close>

definition example_graph :: BMGraphBuilder where
  "example_graph =
     [Some (ConstantNode 1), Some (ConstantNode 2), Some (ConstantNode 3),
      Some (ExpNode 0), Some (ExpNode 1), Some (ExpNode 2),
      Some (MultiAdditionNode [3, 4, 5]), Some (LogNode 6),
      Some (AdditionNode 3 7)]"

definition example_fixer :: LogSumExpFixer where
  "example_fixer = \<lparr>bmg = example_graph, typer = Map.empty\<rparr>"

text \<open>
  The chain form \<open>Log(Add(Add(Exp(a), Exp(b)), Exp(c)))\<close>, as the graph is before the n-ary
  addition normalizer has run.
\<close>

definition chain_graph :: BMGraphBuilder where
  "chain_graph =
     [Some (ConstantNode 1), Some (ConstantNode 2), Some (ConstantNode 3),
      Some (ExpNode 0), Some (ExpNode 1), Some (ExpNode 2),
      Some (AdditionNode 3 4), Some (AdditionNode 6 5), Some (LogNode 7)]"

definition chain_fixer :: LogSumExpFixer where
  "chain_fixer = \<lparr>bmg = chain_graph, typer = Map.empty\<rparr>"

text \<open>\<open>Log(MultiAdd([Exp(a), Constant(5)]))\<close>: not every input of the sum is an exponential.\<close>

definition mixed_graph :: BMGraphBuilder where
  "mixed_graph =
     [Some (ConstantNode 1), Some (ConstantNode 5), Some (ExpNode 0),
      Some (MultiAdditionNode [2, 1]), Some (LogNode 3)]"

definition mixed_fixer :: LogSumExpFixer where
  "mixed_fixer = \<lparr>bmg = mixed_graph, typer = Map.empty\<rparr>"

text \<open>The logarithm of an n-ary sum that has no input.\<close>

definition empty_sum_graph :: BMGraphBuilder where
  "empty_sum_graph = [Some (MultiAdditionNode []), Some (LogNode 0)]"

definition empty_sum_fixer :: LogSumExpFixer where
  "empty_sum_fixer = \<lparr>bmg = empty_sum_graph, typer = Map.empty\<rparr>"

text \<open>A traversal order for the examples: the nodes in the order of the arena.\<close>

definition arena_order :: "BMGraphBuilder \<Rightarrow> node_ref list" where
  "arena_order g = [0..<length g]"

text \<open>
  The worked example after the rewrite: the logarithm is dropped, its consumer 8 refers to
  the new node 9, and \<open>Exp(a)\<close> keeps its other consumer.
\<close>

definition example_fixed_graph :: BMGraphBuilder where
  "example_fixed_graph =
     [Some (ConstantNode 1), Some (ConstantNode 2), Some (ConstantNode 3),
      Some (ExpNode 0), Some (ExpNode 1), Some (ExpNode 2),
      Some (MultiAdditionNode [3, 4, 5]), None,
      Some (AdditionNode 3 9), Some (LogSumExpNode [0, 1, 2])]"

text \<open>
  The structure of a graph: kinds and ordered inputs, with the value of every constant
  forgotten. Two graphs have the same structure when they agree on it node by node.
\<close>

fun shape :: "BMGNode \<Rightarrow> BMGNode" where
  "shape (ConstantNode v) = ConstantNode 0"
| "shape (ExpNode a) = ExpNode a"
| "shape (LogNode a) = LogNode a"
| "shape (AdditionNode l r) = AdditionNode l r"
| "shape (MultiAdditionNode xs) = MultiAdditionNode xs"
| "shape (LogSumExpNode xs) = LogSumExpNode xs"

definition same_structure :: "BMGraphBuilder \<Rightarrow> BMGraphBuilder \<Rightarrow> bool" where
  "same_structure g1 g2 = (map (map_option shape) g1 = map (map_option shape) g2)"

text \<open>The worked example with other constants, in a fixer with another state of the typer.\<close>

definition example_graph_other_values :: BMGraphBuilder where
  "example_graph_other_values =
     [Some (ConstantNode 10), Some (ConstantNode (-2)), Some (ConstantNode 0),
      Some (ExpNode 0), Some (ExpNode 1), Some (ExpNode 2),
      Some (MultiAdditionNode [3, 4, 5]), Some (LogNode 6),
      Some (AdditionNode 3 7)]"

definition example_fixer_other_oracle :: LogSumExpFixer where
  "example_fixer_other_oracle =
     \<lparr>bmg = example_graph_other_values, typer = [0 \<mapsto> PositiveReal, 7 \<mapsto> ScalarReal]\<rparr>"

section \<open>Properties\<close>

lemma isinstance_ExpNode_iff:
  "isinstance_ExpNode g c \<longleftrightarrow> (\<exists>a. node_at g c = Some (ExpNode a))"
  by (simp add: isinstance_ExpNode_def split: option.split BMGNode.split)

lemma isinstance_LogNode_iff:
  "isinstance_LogNode g c \<longleftrightarrow> (\<exists>a. node_at g c = Some (LogNode a))"
  by (simp add: isinstance_LogNode_def split: option.split BMGNode.split)

lemma isinstance_MultiAdditionNode_iff:
  "isinstance_MultiAdditionNode g c \<longleftrightarrow> (\<exists>xs. node_at g c = Some (MultiAdditionNode xs))"
  by (simp add: isinstance_MultiAdditionNode_def split: option.split BMGNode.split)

lemma needs_fixing_eq: "needs_fixing self n = Inr (log_of_sum_of_exps (bmg self) n)"
  unfolding needs_fixing_def can_be_log_sum_exp_def is_exp_input_def
    inputs_of_def operand_def isinstance_LogNode_def isinstance_MultiAdditionNode_def
    log_of_sum_of_exps_def
  by (simp split: option.split BMGNode.split)

lemma list_all_exp_iff:
  "list_all (isinstance_ExpNode g) cs \<longleftrightarrow>
   (\<exists>as. map (node_at g) cs = map (\<lambda>a. Some (ExpNode a)) as)"
proof (induction cs)
  case Nil
  then show ?case by simp
next
  case (Cons c cs)
  show ?case
  proof
    assume h: "list_all (isinstance_ExpNode g) (c # cs)"
    then obtain a where a: "node_at g c = Some (ExpNode a)"
      by (auto simp: isinstance_ExpNode_iff)
    from h Cons obtain as where "map (node_at g) cs = map (\<lambda>a. Some (ExpNode a)) as"
      by auto
    with a have "map (node_at g) (c # cs) = map (\<lambda>a. Some (ExpNode a)) (a # as)" by simp
    then show "\<exists>as. map (node_at g) (c # cs) = map (\<lambda>a. Some (ExpNode a)) as" by blast
  next
    assume "\<exists>as. map (node_at g) (c # cs) = map (\<lambda>a. Some (ExpNode a)) as"
    then obtain as where as: "map (node_at g) (c # cs) = map (\<lambda>a. Some (ExpNode a)) as"
      by blast
    then obtain a as' where as': "as = a # as'" by (cases as) auto
    with as have "isinstance_ExpNode g c" by (simp add: isinstance_ExpNode_iff)
    moreover from as as' have "\<exists>as. map (node_at g) cs = map (\<lambda>a. Some (ExpNode a)) as"
      by auto
    ultimately show "list_all (isinstance_ExpNode g) (c # cs)"
      using Cons by simp
  qed
qed

lemma log_of_sum_of_exps_iff:
  "log_of_sum_of_exps g n \<longleftrightarrow>
   (\<exists>oper cs. node_at g n = Some (LogNode oper) \<and>
      node_at g oper = Some (MultiAdditionNode cs) \<and> list_all (isinstance_ExpNode g) cs)"
  apply (cases "node_at g n"; simp add: log_of_sum_of_exps_def)
  subgoal for nd
    apply (cases nd; simp)
    subgoal for oper
      apply (cases "node_at g oper"; simp)
      subgoal for nd2 by (cases nd2; simp)
      done
    done
  done

lemma pattern_iff:
  "log_of_sum_of_exps g n \<longleftrightarrow>
   (\<exists>oper cs as. node_at g n = Some (LogNode oper) \<and>
      node_at g oper = Some (MultiAdditionNode cs) \<and>
      map (node_at g) cs = map (\<lambda>a. Some (ExpNode a)) as)"
  by (simp add: log_of_sum_of_exps_iff list_all_exp_iff)

subsection \<open>What \<open>_needs_fixing\<close> decides\<close>

text \<open>
  C1. For every node \<open>n\<close>, \<open>_needs_fixing(n)\<close> returns (it never raises) and its result is
  true if and only if \<open>n\<close> is a Log node, its operand is a MultiAdd node, and every input of
  that MultiAdd node is an Exp node.
\<close>

theorem needs_fixing_iff_pattern:
  "needs_fixing self n =
     Inr (\<exists>oper cs. node_at (bmg self) n = Some (LogNode oper) \<and>
            node_at (bmg self) oper = Some (MultiAdditionNode cs) \<and>
            list_all (\<lambda>c. \<exists>a. node_at (bmg self) c = Some (ExpNode a)) cs)"
proof -
  have "(\<lambda>c. \<exists>a. node_at (bmg self) c = Some (ExpNode a)) = isinstance_ExpNode (bmg self)"
    by (rule ext) (simp add: isinstance_ExpNode_iff)
  then show ?thesis
    by (simp add: needs_fixing_eq log_of_sum_of_exps_iff)
qed

subsection \<open>What \<open>_get_replacement\<close> builds\<close>

lemma collect_operands_ok:
  "map (node_at g) cs = map (\<lambda>a. Some (ExpNode a)) as \<Longrightarrow>
   collect_operands g cs acc = Inr (acc @ as)"
proof (induction cs arbitrary: as acc)
  case Nil
  then show ?case by simp
next
  case (Cons c cs)
  then obtain a as' where as: "as = a # as'" by (cases as) auto
  with Cons.prems have c: "node_at g c = Some (ExpNode a)"
    and rest: "map (node_at g) cs = map (\<lambda>a. Some (ExpNode a)) as'" by auto
  from Cons.IH [OF rest] c as show ?case
    by (simp add: isinstance_ExpNode_def operand_def)
qed

lemma get_replacement_ok:
  assumes n: "node_at (bmg self) n = Some (LogNode oper)"
    and oper: "node_at (bmg self) oper = Some (MultiAdditionNode cs)"
    and cs: "map (node_at (bmg self)) cs = map (\<lambda>a. Some (ExpNode a)) as"
  shows "get_replacement self n =
           Inr (Some (length (bmg self)), self\<lparr>bmg := bmg self @ [Some (LogSumExpNode as)]\<rparr>)"
proof -
  have len: "length as = length cs"
    using cs by (metis length_map)
  have "list_all (isinstance_ExpNode (bmg self)) cs"
    using cs list_all_exp_iff by blast
  then have can: "can_be_log_sum_exp self n = Inr True"
    using n oper
    by (simp add: can_be_log_sum_exp_def operand_def isinstance_MultiAdditionNode_def
        is_exp_input_def inputs_of_def)
  have col: "collect_operands (bmg self) cs [] = Inr as"
    using collect_operands_ok [OF cs, of "[]"] by simp
  show ?thesis
    using n oper can col len
    by (simp add: get_replacement_def isinstance_LogNode_def operand_def inputs_of_def
        add_logsumexp_def)
qed

lemma get_replacement_fail:
  assumes "\<not> log_of_sum_of_exps (bmg self) n"
  shows "get_replacement self n = Inl AssertionError"
proof (cases "isinstance_LogNode (bmg self) n")
  case False
  then show ?thesis by (simp add: get_replacement_def)
next
  case True
  then have "can_be_log_sum_exp self n = needs_fixing self n"
    by (simp add: needs_fixing_def)
  with assms have "can_be_log_sum_exp self n = Inr False"
    by (simp add: needs_fixing_eq)
  with True show ?thesis by (simp add: get_replacement_def)
qed

lemma fix_node_no_match:
  "\<not> log_of_sum_of_exps (bmg self) n \<Longrightarrow> fix_node self n = Inr (self, False)"
  by (simp add: fix_node_def needs_fixing_eq)

lemma node_at_less: "node_at g n = Some nd \<Longrightarrow> n < length g"
  by (simp add: node_at_def split: if_splits)

lemma fix_node_match:
  assumes n: "node_at (bmg self) n = Some (LogNode oper)"
    and oper: "node_at (bmg self) oper = Some (MultiAdditionNode cs)"
    and cs: "map (node_at (bmg self)) cs = map (\<lambda>a. Some (ExpNode a)) as"
  shows "fix_node self n =
           Inr (self\<lparr>bmg := replace (bmg self @ [Some (LogSumExpNode as)]) n (length (bmg self))\<rparr>,
                True)"
proof -
  have "log_of_sum_of_exps (bmg self) n"
    using assms pattern_iff by blast
  moreover have "length (bmg self) \<noteq> n"
    using node_at_less [OF n] by simp
  ultimately show ?thesis
    by (simp add: fix_node_def needs_fixing_eq get_replacement_ok [OF assms])
qed

text \<open>
  C2. For every node \<open>n\<close> with \<open>_needs_fixing(n)\<close> true, \<open>n\<close> is the Log of a MultiAdd whose
  inputs \<open>cs\<close> are Exp nodes, the i-th with operand \<open>as ! i\<close>, and \<open>_get_replacement(n)\<close>
  returns one node, a LogSumExp node whose input list is exactly \<open>as\<close>: as many inputs as
  the sum has, in the order of the sum's inputs. For \<open>[Exp(a), Exp(b), Exp(c)]\<close> the
  replacement is \<open>LogSumExp [a, b, c]\<close> (the example that follows the theorem).
\<close>

theorem get_replacement_builds_logsumexp:
  assumes "needs_fixing self n = Inr True"
  shows "\<exists>oper cs as r self'.
           node_at (bmg self) n = Some (LogNode oper) \<and>
           node_at (bmg self) oper = Some (MultiAdditionNode cs) \<and>
           map (node_at (bmg self)) cs = map (\<lambda>a. Some (ExpNode a)) as \<and>
           length as = length cs \<and>
           get_replacement self n = Inr (Some r, self') \<and>
           node_at (bmg self') r = Some (LogSumExpNode as)"
proof -
  from assms have "log_of_sum_of_exps (bmg self) n"
    by (simp add: needs_fixing_eq)
  then obtain oper cs as where n: "node_at (bmg self) n = Some (LogNode oper)"
    and oper: "node_at (bmg self) oper = Some (MultiAdditionNode cs)"
    and cs: "map (node_at (bmg self)) cs = map (\<lambda>a. Some (ExpNode a)) as"
    using pattern_iff by blast
  have len: "length as = length cs"
    using cs by (metis length_map)
  have "node_at (bmg self @ [Some (LogSumExpNode as)]) (length (bmg self)) =
          Some (LogSumExpNode as)"
    by (simp add: node_at_def)
  with get_replacement_ok [OF n oper cs] n oper cs len show ?thesis
    by auto
qed

lemma example_needs_fixing: "needs_fixing example_fixer 7 = Inr True"
  by (simp add: needs_fixing_eq log_of_sum_of_exps_def example_fixer_def example_graph_def
      node_at_def isinstance_ExpNode_def)

theorem get_replacement_builds_logsumexp_witness:
  "needs_fixing example_fixer 7 = Inr True \<and>
   (\<exists>r self'. get_replacement example_fixer 7 = Inr (Some r, self') \<and>
      node_at (bmg self') r = Some (LogSumExpNode [0, 1, 2]))"
proof -
  have nf: "needs_fixing example_fixer 7 = Inr True"
    by (rule example_needs_fixing)
  from get_replacement_builds_logsumexp [OF nf]
  obtain oper cs as r self' where
    n: "node_at (bmg example_fixer) 7 = Some (LogNode oper)" and
    oper: "node_at (bmg example_fixer) oper = Some (MultiAdditionNode cs)" and
    cs: "map (node_at (bmg example_fixer)) cs = map (\<lambda>a. Some (ExpNode a)) as" and
    res: "get_replacement example_fixer 7 = Inr (Some r, self')"
      "node_at (bmg self') r = Some (LogSumExpNode as)"
    by blast
  from n have "oper = 6"
    by (simp add: example_fixer_def example_graph_def node_at_def)
  with oper have "cs = [3, 4, 5]"
    by (simp add: example_fixer_def example_graph_def node_at_def)
  with cs have "as = [0, 1, 2]"
    by (auto simp: example_fixer_def example_graph_def node_at_def Cons_eq_map_conv)
  with res nf show ?thesis by blast
qed

text \<open>
  C3. If \<open>_needs_fixing(n)\<close> is true then \<open>_get_replacement(n)\<close> returns a node: no assertion
  fails and the result is not \<open>None\<close>. If \<open>_needs_fixing(n)\<close> is not true then
  \<open>_get_replacement(n)\<close> raises \<open>AssertionError\<close>. So a step of the engine never ends in
  the fatal mismatch between predicate and replacement, nor in an exception.
\<close>

theorem get_replacement_agrees_with_needs_fixing:
  "(needs_fixing self n = Inr True \<longrightarrow>
      (\<exists>r self'. get_replacement self n = Inr (Some r, self'))) \<and>
   (needs_fixing self n \<noteq> Inr True \<longrightarrow> get_replacement self n = Inl AssertionError) \<and>
   (\<exists>self' replaced. fix_node self n = Inr (self', replaced))"
proof (cases "log_of_sum_of_exps (bmg self) n")
  case True
  then obtain oper cs as where n: "node_at (bmg self) n = Some (LogNode oper)"
    and oper: "node_at (bmg self) oper = Some (MultiAdditionNode cs)"
    and cs: "map (node_at (bmg self)) cs = map (\<lambda>a. Some (ExpNode a)) as"
    using pattern_iff by blast
  from True get_replacement_ok [OF n oper cs] fix_node_match [OF n oper cs]
  show ?thesis by (auto simp: needs_fixing_eq)
next
  case False
  then show ?thesis
    by (auto simp: needs_fixing_eq get_replacement_fail fix_node_no_match)
qed

lemma example_not_needs_fixing: "needs_fixing example_fixer 8 \<noteq> Inr True"
  by (simp add: needs_fixing_eq log_of_sum_of_exps_def example_fixer_def example_graph_def
      node_at_def)

theorem get_replacement_agrees_with_needs_fixing_witness:
  "needs_fixing example_fixer 7 = Inr True \<and>
   (\<exists>r self'. get_replacement example_fixer 7 = Inr (Some r, self')) \<and>
   needs_fixing example_fixer 8 \<noteq> Inr True \<and>
   get_replacement example_fixer 8 = Inl AssertionError \<and>
   (\<exists>self' replaced. fix_node example_fixer 7 = Inr (self', replaced))"
  using get_replacement_agrees_with_needs_fixing [of example_fixer 7]
    get_replacement_agrees_with_needs_fixing [of example_fixer 8]
    example_needs_fixing example_not_needs_fixing
  by blast

text \<open>
  C6. For a Log node whose operand is a binary addition (the head of a left-associated chain
  such as \<open>Add(Add(Exp(a), Exp(b)), Exp(c))\<close>) instead of one MultiAdd node,
  \<open>_needs_fixing\<close> returns false, and the engine step of the fixer leaves the graph as it
  is.
\<close>

theorem chain_of_binary_additions_not_fixed:
  assumes "node_at (bmg self) n = Some (LogNode oper)"
    and "node_at (bmg self) oper = Some (AdditionNode l r)"
  shows "needs_fixing self n = Inr False \<and> fix_node self n = Inr (self, False) \<and>
         needs_fixing self oper = Inr False \<and> fix_node self oper = Inr (self, False)"
proof -
  from assms have "\<not> log_of_sum_of_exps (bmg self) n" "\<not> log_of_sum_of_exps (bmg self) oper"
    by (simp_all add: log_of_sum_of_exps_def)
  then show ?thesis
    by (simp add: needs_fixing_eq fix_node_no_match)
qed

theorem chain_of_binary_additions_not_fixed_witness:
  "node_at (bmg chain_fixer) 8 = Some (LogNode 7) \<and>
   node_at (bmg chain_fixer) 7 = Some (AdditionNode 6 5) \<and>
   node_at (bmg chain_fixer) 6 = Some (AdditionNode 3 4) \<and>
   needs_fixing chain_fixer 8 = Inr False \<and> fix_node chain_fixer 8 = Inr (chain_fixer, False)"
proof -
  have a: "node_at (bmg chain_fixer) 8 = Some (LogNode 7)"
    by (simp add: chain_fixer_def chain_graph_def node_at_def)
  have b: "node_at (bmg chain_fixer) 7 = Some (AdditionNode 6 5)"
    by (simp add: chain_fixer_def chain_graph_def node_at_def)
  have c: "node_at (bmg chain_fixer) 6 = Some (AdditionNode 3 4)"
    by (simp add: chain_fixer_def chain_graph_def node_at_def)
  from chain_of_binary_additions_not_fixed [OF a b] a b c show ?thesis by simp
qed

text \<open>
  C7. Non-application: for a Log node whose MultiAdd operand has an input that is not an Exp
  node, \<open>_needs_fixing\<close> returns false; it is a function of the graph that returns no new
  graph, and the engine step of the fixer on such a node returns the fixer, hence the graph,
  unchanged.
\<close>

theorem mixed_sum_not_fixed:
  assumes "node_at (bmg self) n = Some (LogNode oper)"
    and "node_at (bmg self) oper = Some (MultiAdditionNode cs)"
    and "c \<in> set cs"
    and "\<not> (\<exists>a. node_at (bmg self) c = Some (ExpNode a))"
  shows "needs_fixing self n = Inr False \<and> fix_node self n = Inr (self, False)"
proof -
  from assms(3,4) have "\<not> list_all (isinstance_ExpNode (bmg self)) cs"
    by (auto simp: list_all_iff isinstance_ExpNode_iff)
  with assms(1,2) have "\<not> log_of_sum_of_exps (bmg self) n"
    by (simp add: log_of_sum_of_exps_def)
  then show ?thesis
    by (simp add: needs_fixing_eq fix_node_no_match)
qed

theorem mixed_sum_not_fixed_witness:
  "node_at (bmg mixed_fixer) 4 = Some (LogNode 3) \<and>
   node_at (bmg mixed_fixer) 3 = Some (MultiAdditionNode [2, 1]) \<and>
   node_at (bmg mixed_fixer) 2 = Some (ExpNode 0) \<and>
   node_at (bmg mixed_fixer) 1 = Some (ConstantNode 5) \<and>
   needs_fixing mixed_fixer 4 = Inr False \<and> fix_node mixed_fixer 4 = Inr (mixed_fixer, False)"
proof -
  have a: "node_at (bmg mixed_fixer) 4 = Some (LogNode 3)"
    by (simp add: mixed_fixer_def mixed_graph_def node_at_def)
  have b: "node_at (bmg mixed_fixer) 3 = Some (MultiAdditionNode [2, 1])"
    by (simp add: mixed_fixer_def mixed_graph_def node_at_def)
  have c: "(1::nat) \<in> set [2, 1]" by simp
  have d: "node_at (bmg mixed_fixer) 1 = Some (ConstantNode 5)"
    by (simp add: mixed_fixer_def mixed_graph_def node_at_def)
  then have d': "\<not> (\<exists>a. node_at (bmg mixed_fixer) 1 = Some (ExpNode a))" by simp
  have e: "node_at (bmg mixed_fixer) 2 = Some (ExpNode 0)"
    by (simp add: mixed_fixer_def mixed_graph_def node_at_def)
  from mixed_sum_not_fixed [OF a b c d'] a b d e show ?thesis by simp
qed

text \<open>
  C9. For a Log node whose operand is a MultiAdd node with no input, \<open>_needs_fixing\<close>
  returns true and \<open>_get_replacement\<close> returns a LogSumExp node with no input.
\<close>

theorem empty_sum_is_fixed:
  assumes "node_at (bmg self) n = Some (LogNode oper)"
    and "node_at (bmg self) oper = Some (MultiAdditionNode [])"
  shows "needs_fixing self n = Inr True \<and>
         get_replacement self n =
           Inr (Some (length (bmg self)), self\<lparr>bmg := bmg self @ [Some (LogSumExpNode [])]\<rparr>) \<and>
         node_at (bmg self @ [Some (LogSumExpNode [])]) (length (bmg self)) =
           Some (LogSumExpNode [])"
proof -
  have m: "map (node_at (bmg self)) [] = map (\<lambda>a. Some (ExpNode a)) []" by simp
  from assms have "log_of_sum_of_exps (bmg self) n"
    by (simp add: log_of_sum_of_exps_def)
  with get_replacement_ok [OF assms m] show ?thesis
    by (simp add: needs_fixing_eq node_at_def)
qed

theorem empty_sum_is_fixed_witness:
  "node_at (bmg empty_sum_fixer) 1 = Some (LogNode 0) \<and>
   node_at (bmg empty_sum_fixer) 0 = Some (MultiAdditionNode []) \<and>
   needs_fixing empty_sum_fixer 1 = Inr True \<and>
   get_replacement empty_sum_fixer 1 =
     Inr (Some 2, empty_sum_fixer\<lparr>bmg := empty_sum_graph @ [Some (LogSumExpNode [])]\<rparr>)"
proof -
  have a: "node_at (bmg empty_sum_fixer) 1 = Some (LogNode 0)"
    by (simp add: empty_sum_fixer_def empty_sum_graph_def node_at_def)
  have b: "node_at (bmg empty_sum_fixer) 0 = Some (MultiAdditionNode [])"
    by (simp add: empty_sum_fixer_def empty_sum_graph_def node_at_def)
  have c: "bmg empty_sum_fixer = empty_sum_graph" "length empty_sum_graph = 2"
    by (simp_all add: empty_sum_fixer_def empty_sum_graph_def)
  from empty_sum_is_fixed [OF a b] a b c show ?thesis by simp
qed

subsection \<open>The effect of a rewrite on the graph\<close>

lemma node_at_append:
  "node_at (g @ [x]) m = (if m < length g then node_at g m else if m = length g then x else None)"
  by (simp add: node_at_def nth_append)

lemma inputs_rewire_node: "inputs (rewire_node old new nd) = map (rewire old new) (inputs nd)"
  by (cases nd) simp_all

lemma old_not_in_rewired:
  "old \<noteq> new \<Longrightarrow> old \<notin> set (inputs (rewire_node old new nd))"
  by (auto simp: inputs_rewire_node rewire_def)

lemma node_at_map:
  "node_at (map (map_option f) g) m = map_option f (node_at g m)"
  by (simp add: node_at_def)

lemma consumers_of_rewired:
  assumes "old \<noteq> new"
  shows "consumers_of (map (map_option (rewire_node old new)) g) old = []"
  unfolding consumers_of_def filter_empty_conv
  using old_not_in_rewired [OF assms]
  by (auto simp: node_at_map split: option.splits)

lemma replace_eq:
  "old \<noteq> new \<Longrightarrow> replace g old new = (map (map_option (rewire_node old new)) g)[old := None]"
  by (simp add: replace_def consumers_of_rewired)

lemma node_at_replace:
  "old \<noteq> new \<Longrightarrow>
   node_at (replace g old new) m =
     (if m = old then None else map_option (rewire_node old new) (node_at g m))"
  by (auto simp: replace_eq node_at_def)

lemma consumers_of_append:
  "consumers_of (g @ [Some nd]) a =
     consumers_of g a @ (if a \<in> set (inputs nd) then [length g] else [])"
proof -
  have "filter (\<lambda>m. case node_at (g @ [Some nd]) m of Some nd \<Rightarrow> a \<in> set (inputs nd) | None \<Rightarrow> False)
          [0..<length g] =
        filter (\<lambda>m. case node_at g m of Some nd \<Rightarrow> a \<in> set (inputs nd) | None \<Rightarrow> False)
          [0..<length g]"
    by (rule filter_cong) (simp_all add: node_at_append)
  then show ?thesis
    by (simp add: consumers_of_def node_at_append)
qed


lemma mem_consumers_of:
  "m \<in> set (consumers_of g a) \<longleftrightarrow> (\<exists>nd. node_at g m = Some nd \<and> a \<in> set (inputs nd))"
  by (auto simp: consumers_of_def node_at_def split: option.splits)

lemma node_at_after_fix:
  assumes "n < length g"
  shows "node_at (replace (g @ [Some (LogSumExpNode as)]) n (length g)) m =
           (if m = n then None
            else if m < length g then map_option (rewire_node n (length g)) (node_at g m)
            else if m = length g then Some (LogSumExpNode (map (rewire n (length g)) as))
            else None)"
proof -
  from assms have "n \<noteq> length g" by simp
  then show ?thesis
    by (simp add: node_at_replace node_at_append)
qed

text \<open>
  C5. Sharing preservation. For the Log \<open>n\<close> of a MultiAdd of Exp nodes \<open>cs\<close> with operands
  \<open>as\<close>: the inputs of the replacement are the very references \<open>as\<close> that the Exp children
  hold, at a reference \<open>r\<close> that was free; every node of the graph, a consumer of \<open>Exp(a)\<close>
  outside the pattern among them, is still there unchanged after \<open>_get_replacement\<close>, and
  each operand \<open>a\<close> has gained exactly the consumer \<open>r\<close>. After the engine's replacement
  every node other than \<open>n\<close> is still there and each of its inputs other than \<open>n\<close> is the
  same reference as before (no Exp child is \<open>n\<close>), and \<open>r\<close> is a consumer of each operand
  \<open>a\<close> other than \<open>n\<close>.
\<close>

theorem sharing_preserved:
  assumes n: "node_at (bmg self) n = Some (LogNode oper)"
    and oper: "node_at (bmg self) oper = Some (MultiAdditionNode cs)"
    and cs: "map (node_at (bmg self)) cs = map (\<lambda>a. Some (ExpNode a)) as"
  shows "\<exists>r self' self''.
           get_replacement self n = Inr (Some r, self') \<and>
           node_at (bmg self') r = Some (LogSumExpNode as) \<and>
           node_at (bmg self) r = None \<and>
           (\<forall>m nd. node_at (bmg self) m = Some nd \<longrightarrow> node_at (bmg self') m = Some nd) \<and>
           (\<forall>a \<in> set as. consumers_of (bmg self') a = consumers_of (bmg self) a @ [r]) \<and>
           fix_node self n = Inr (self'', True) \<and>
           (\<forall>x ndx. x \<noteq> n \<and> node_at (bmg self) x = Some ndx \<longrightarrow>
              (\<exists>ndx'. node_at (bmg self'') x = Some ndx' \<and>
                 length (inputs ndx') = length (inputs ndx) \<and>
                 (\<forall>j < length (inputs ndx).
                    inputs ndx ! j \<noteq> n \<longrightarrow> inputs ndx' ! j = inputs ndx ! j))) \<and>
           n \<notin> set cs \<and>
           (\<forall>a \<in> set as. a \<noteq> n \<longrightarrow> r \<in> set (consumers_of (bmg self'') a))"
proof -
  let ?g = "bmg self"
  let ?r = "length ?g"
  let ?g' = "?g @ [Some (LogSumExpNode as)]"
  let ?g'' = "replace ?g' n ?r"
  have nlt: "n < ?r" using n by (simp add: node_at_def split: if_splits)
  have 1: "get_replacement self n = Inr (Some ?r, self\<lparr>bmg := ?g'\<rparr>)"
    by (rule get_replacement_ok [OF n oper cs])
  have 2: "node_at ?g' ?r = Some (LogSumExpNode as)"
    by (simp add: node_at_append)
  have 3: "node_at ?g ?r = None"
    by (simp add: node_at_def)
  have 4: "\<forall>m nd. node_at ?g m = Some nd \<longrightarrow> node_at ?g' m = Some nd"
  proof (intro allI impI)
    fix m nd
    assume h: "node_at ?g m = Some nd"
    then have "m < ?r" by (rule node_at_less)
    with h show "node_at ?g' m = Some nd" by (simp add: node_at_append)
  qed
  have 5: "\<forall>a \<in> set as. consumers_of ?g' a = consumers_of ?g a @ [?r]"
    by (simp add: consumers_of_append)
  have 6: "fix_node self n = Inr (self\<lparr>bmg := ?g''\<rparr>, True)"
    by (rule fix_node_match [OF n oper cs])
  have 7: "\<exists>ndx'. node_at ?g'' x = Some ndx' \<and>
                 length (inputs ndx') = length (inputs ndx) \<and>
                 (\<forall>j < length (inputs ndx).
                    inputs ndx ! j \<noteq> n \<longrightarrow> inputs ndx' ! j = inputs ndx ! j)"
    if "x \<noteq> n" "node_at ?g x = Some ndx" for x ndx
  proof -
    from that have "x < ?r" by (simp add: node_at_def split: if_splits)
    with that have "node_at ?g'' x = Some (rewire_node n ?r ndx)"
      by (simp add: node_at_after_fix [OF nlt])
    then show ?thesis
      by (simp add: inputs_rewire_node rewire_def)
  qed
  have 8: "n \<notin> set cs"
  proof
    assume "n \<in> set cs"
    then have "node_at ?g n \<in> set (map (node_at ?g) cs)" by simp
    with cs n show False by auto
  qed
  have 9: "?r \<in> set (consumers_of ?g'' a)" if "a \<in> set as" "a \<noteq> n" for a
  proof -
    have "node_at ?g'' ?r = Some (LogSumExpNode (map (rewire n ?r) as))"
      using nlt by (simp add: node_at_after_fix [OF nlt])
    moreover from that have "a \<in> set (map (rewire n ?r) as)"
      by (force simp: rewire_def)
    ultimately show ?thesis
      by (simp add: mem_consumers_of)
  qed
  show ?thesis
    apply (rule exI [of _ ?r])
    apply (rule exI [of _ "self\<lparr>bmg := ?g'\<rparr>"])
    apply (rule exI [of _ "self\<lparr>bmg := ?g''\<rparr>"])
    using 1 2 3 4 5 6 7 8 9 by simp
qed

lemma node_at_append_other:
  "nd \<noteq> LogSumExpNode as \<Longrightarrow>
   node_at (g @ [Some (LogSumExpNode as)]) x = Some nd \<longleftrightarrow> node_at g x = Some nd"
  by (auto simp: node_at_append dest: node_at_less)

lemma isinstance_ExpNode_append:
  "isinstance_ExpNode (g @ [Some (LogSumExpNode as)]) = isinstance_ExpNode g"
  by (rule ext) (simp add: isinstance_ExpNode_iff node_at_append_other)

lemma pattern_append:
  "log_of_sum_of_exps (g @ [Some (LogSumExpNode as)]) m = log_of_sum_of_exps g m"
  by (simp add: log_of_sum_of_exps_iff node_at_append_other isinstance_ExpNode_append)

lemma rewire_node_eq_Log:
  "rewire_node old new nd = LogNode b \<longleftrightarrow> (\<exists>a. nd = LogNode a \<and> b = rewire old new a)"
  by (cases nd) auto

lemma rewire_node_eq_Exp:
  "rewire_node old new nd = ExpNode b \<longleftrightarrow> (\<exists>a. nd = ExpNode a \<and> b = rewire old new a)"
  by (cases nd) auto

lemma rewire_node_eq_MultiAdd:
  "rewire_node old new nd = MultiAdditionNode ys \<longleftrightarrow>
   (\<exists>xs. nd = MultiAdditionNode xs \<and> ys = map (rewire old new) xs)"
  by (cases nd) auto

lemma pattern_after_fix:
  assumes nlt: "n < length g"
    and pat: "log_of_sum_of_exps (replace (g @ [Some (LogSumExpNode as)]) n (length g)) m"
  shows "log_of_sum_of_exps g m \<and> m \<noteq> n"
proof -
  let ?r = "length g"
  let ?g'' = "replace (g @ [Some (LogSumExpNode as)]) n ?r"
  note at = node_at_after_fix [OF nlt, of as]
  have exp: "\<exists>a. node_at g x = Some (ExpNode a)" if "isinstance_ExpNode ?g'' (rewire n ?r x)" for x
  proof (cases "x = n")
    case True
    with that show ?thesis
      using nlt by (simp add: isinstance_ExpNode_iff at rewire_def)
  next
    case False
    with that show ?thesis
      by (auto simp: isinstance_ExpNode_iff at rewire_def rewire_node_eq_Exp
          split: if_splits)
  qed
  from pat obtain o' cs' where m: "node_at ?g'' m = Some (LogNode o')"
    and o': "node_at ?g'' o' = Some (MultiAdditionNode cs')"
    and cs': "list_all (isinstance_ExpNode ?g'') cs'"
    using log_of_sum_of_exps_iff by blast
  from m have mn: "m \<noteq> n" by (auto simp: at)
  from m obtain oper where gm: "node_at g m = Some (LogNode oper)" and o'_eq: "o' = rewire n ?r oper"
    by (auto simp: at rewire_node_eq_Log split: if_splits)
  have "oper \<noteq> n"
  proof
    assume "oper = n"
    with o'_eq have "o' = ?r" by (simp add: rewire_def)
    with o' nlt show False by (simp add: at)
  qed
  with o'_eq have "o' = oper" by (simp add: rewire_def)
  with o' obtain cs where go: "node_at g oper = Some (MultiAdditionNode cs)"
    and cs'_eq: "cs' = map (rewire n ?r) cs"
    by (auto simp: at rewire_node_eq_MultiAdd split: if_splits)
  from cs' cs'_eq exp have "list_all (isinstance_ExpNode g) cs"
    by (auto simp: list_all_iff isinstance_ExpNode_iff)
  with gm go mn show ?thesis
    using log_of_sum_of_exps_iff by blast
qed

subsection \<open>Fixed points of the engine\<close>

lemma fix_node_unreplaced:
  assumes "fix_node s n = Inr (s', False)"
  shows "s' = s \<and> needs_fixing s n = Inr False"
proof (cases "log_of_sum_of_exps (bmg s) n")
  case True
  then obtain oper cs as where "node_at (bmg s) n = Some (LogNode oper)"
    "node_at (bmg s) oper = Some (MultiAdditionNode cs)"
    "map (node_at (bmg s)) cs = map (\<lambda>a. Some (ExpNode a)) as"
    using pattern_iff by blast
  from fix_node_match [OF this] assms show ?thesis by simp
next
  case False
  with assms show ?thesis
    by (simp add: fix_node_no_match needs_fixing_eq)
qed

lemma fix_pass_zero:
  "fix_pass s ns = Inr (out, 0) \<Longrightarrow> out = s \<and> list_all (\<lambda>n. needs_fixing s n = Inr False) ns"
proof (induction ns arbitrary: s)
  case Nil
  then show ?case by simp
next
  case (Cons n ns)
  from Cons.prems obtain s' replaced k where
    step: "fix_node s n = Inr (s', replaced)" and
    rest: "fix_pass s' ns = Inr (out, k)" and
    cnt: "(if replaced then Suc k else k) = 0"
    by (auto split: sum.splits prod.splits)
  from cnt have "\<not> replaced" "k = 0" by (auto split: if_splits)
  with step have "fix_node s n = Inr (s', False)" by simp
  from fix_node_unreplaced [OF this] have "s' = s" "needs_fixing s n = Inr False"
    by simp_all
  with Cons.IH [of s] rest \<open>k = 0\<close> show ?case by simp
qed

lemma fix_pass_fixpoint:
  "list_all (\<lambda>n. needs_fixing s n = Inr False) ns \<Longrightarrow> fix_pass s ns = Inr (s, 0)"
  by (induction ns) (simp_all add: fix_node_def)

lemma run_ends_in_fixpoint:
  "run ord k s = Inr (out, t) \<Longrightarrow> fix_pass out (ord (bmg out)) = Inr (out, 0)"
proof (induction k arbitrary: s t)
  case 0
  then show ?case by simp
next
  case (Suc k)
  from Suc.prems obtain s' c where pass: "fix_pass s (ord (bmg s)) = Inr (s', c)"
    by (auto split: sum.splits prod.splits)
  show ?case
  proof (cases "c = 0")
    case True
    with pass Suc.prems have "out = s'" by simp
    moreover from pass True have "s' = s" using fix_pass_zero by blast
    ultimately show ?thesis using pass True by simp
  next
    case False
    with pass Suc.prems obtain t' where "run ord k s' = Inr (out, t')"
      by (auto split: sum.splits prod.splits)
    then show ?thesis by (rule Suc.IH)
  qed
qed

text \<open>
  C4. Idempotence. If a run of the engine returns \<open>out\<close>, a further pass over \<open>out\<close> and a
  further run on \<open>out\<close> perform zero replacements and return \<open>out\<close>. And for every node
  \<open>n\<close> with \<open>_needs_fixing(n)\<close> true, the node \<open>r\<close> returned by \<open>_get_replacement(n)\<close> is a
  LogSumExp node, not a Log node, for which \<open>_needs_fixing\<close> is false, before and after the
  engine has put it in the place of \<open>n\<close>; adding it changes \<open>_needs_fixing\<close> for no node, and
  after the replacement \<open>_needs_fixing\<close> holds only of nodes of which it held before.
\<close>

theorem replacement_is_not_fixed_again:
  "(run topological_order max_passes self = Inr (out, t) \<longrightarrow>
      fix_pass out (topological_order (bmg out)) = Inr (out, 0) \<and>
      run topological_order (Suc again) out = Inr (out, 0)) \<and>
   (needs_fixing self n = Inr True \<longrightarrow>
      (\<exists>r self' self'' as.
           get_replacement self n = Inr (Some r, self') \<and>
           node_at (bmg self') r = Some (LogSumExpNode as) \<and>
           \<not> isinstance_LogNode (bmg self') r \<and>
           needs_fixing self' r = Inr False \<and>
           (\<forall>m. needs_fixing self' m = needs_fixing self m) \<and>
           fix_node self n = Inr (self'', True) \<and>
           needs_fixing self'' r = Inr False \<and>
           needs_fixing self'' n = Inr False \<and>
           (\<forall>m. needs_fixing self'' m = Inr True \<longrightarrow> needs_fixing self m = Inr True)))"
proof (intro conjI impI)
  assume "run topological_order max_passes self = Inr (out, t)"
  then show fp: "fix_pass out (topological_order (bmg out)) = Inr (out, 0)"
    by (rule run_ends_in_fixpoint)
  then show "run topological_order (Suc again) out = Inr (out, 0)"
    by simp
next
  assume nf: "needs_fixing self n = Inr True"
  let ?g = "bmg self"
  let ?r = "length ?g"
  from nf have "log_of_sum_of_exps ?g n"
    by (simp add: needs_fixing_eq)
  then obtain oper cs as where n: "node_at ?g n = Some (LogNode oper)"
    and oper: "node_at ?g oper = Some (MultiAdditionNode cs)"
    and cs: "map (node_at ?g) cs = map (\<lambda>a. Some (ExpNode a)) as"
    using pattern_iff by blast
  let ?g' = "?g @ [Some (LogSumExpNode as)]"
  let ?g'' = "replace ?g' n ?r"
  let ?s' = "self\<lparr>bmg := ?g'\<rparr>"
  let ?s'' = "self\<lparr>bmg := ?g''\<rparr>"
  have nlt: "n < ?r" using n by (rule node_at_less)
  have 1: "get_replacement self n = Inr (Some ?r, ?s')"
    by (rule get_replacement_ok [OF n oper cs])
  have 2: "node_at (bmg ?s') ?r = Some (LogSumExpNode as)"
    by (simp add: node_at_append)
  then have 3: "\<not> isinstance_LogNode (bmg ?s') ?r"
    by (simp add: isinstance_LogNode_iff)
  have 5: "\<forall>m. needs_fixing ?s' m = needs_fixing self m"
    by (simp add: needs_fixing_eq pattern_append)
  have "\<not> log_of_sum_of_exps ?g ?r"
    by (simp add: log_of_sum_of_exps_def node_at_def)
  with 5 have 4: "needs_fixing ?s' ?r = Inr False"
    by (simp add: needs_fixing_eq)
  have 6: "fix_node self n = Inr (?s'', True)"
    by (rule fix_node_match [OF n oper cs])
  have 7: "needs_fixing ?s'' ?r = Inr False"
    using nlt by (simp add: needs_fixing_eq log_of_sum_of_exps_def node_at_after_fix [OF nlt])
  have 8: "needs_fixing ?s'' n = Inr False"
    by (simp add: needs_fixing_eq log_of_sum_of_exps_def node_at_after_fix [OF nlt])
  have 9: "\<forall>m. needs_fixing ?s'' m = Inr True \<longrightarrow> needs_fixing self m = Inr True"
    using pattern_after_fix [OF nlt] by (simp add: needs_fixing_eq)
  show "\<exists>r self' self'' as.
           get_replacement self n = Inr (Some r, self') \<and>
           node_at (bmg self') r = Some (LogSumExpNode as) \<and>
           \<not> isinstance_LogNode (bmg self') r \<and>
           needs_fixing self' r = Inr False \<and>
           (\<forall>m. needs_fixing self' m = needs_fixing self m) \<and>
           fix_node self n = Inr (self'', True) \<and>
           needs_fixing self'' r = Inr False \<and>
           needs_fixing self'' n = Inr False \<and>
           (\<forall>m. needs_fixing self'' m = Inr True \<longrightarrow> needs_fixing self m = Inr True)"
    apply (rule exI [of _ ?r])
    apply (rule exI [of _ ?s'])
    apply (rule exI [of _ ?s''])
    apply (rule exI [of _ as])
    using 1 2 3 4 5 6 7 8 9 by simp
qed

lemma example_run:
  "map_sum id (\<lambda>(s, k). (bmg s, k)) (run arena_order 3 example_fixer) =
     Inr (example_fixed_graph, 1)"
  by code_simp

theorem replacement_is_not_fixed_again_witness:
  "(\<exists>out t. run arena_order 3 example_fixer = Inr (out, t) \<and>
      bmg out = example_fixed_graph \<and> t = 1 \<and>
      fix_pass out (arena_order (bmg out)) = Inr (out, 0) \<and>
      run arena_order (Suc 0) out = Inr (out, 0)) \<and>
   needs_fixing example_fixer 7 = Inr True \<and>
   (\<exists>r self' self'' as.
      get_replacement example_fixer 7 = Inr (Some r, self') \<and>
      node_at (bmg self') r = Some (LogSumExpNode as) \<and>
      needs_fixing self' r = Inr False \<and>
      fix_node example_fixer 7 = Inr (self'', True) \<and>
      needs_fixing self'' r = Inr False \<and>
      needs_fixing self'' 7 = Inr False)"
proof -
  from example_run obtain out t where r: "run arena_order 3 example_fixer = Inr (out, t)"
    and res: "bmg out = example_fixed_graph" "t = 1"
    by (cases "run arena_order 3 example_fixer") auto
  note inst = replacement_is_not_fixed_again [of arena_order 3 example_fixer out t 0 7]
  from inst r have "fix_pass out (arena_order (bmg out)) = Inr (out, 0)"
    "run arena_order (Suc 0) out = Inr (out, 0)"
    by blast+
  with r res have 1: "\<exists>out t. run arena_order 3 example_fixer = Inr (out, t) \<and>
      bmg out = example_fixed_graph \<and> t = 1 \<and>
      fix_pass out (arena_order (bmg out)) = Inr (out, 0) \<and>
      run arena_order (Suc 0) out = Inr (out, 0)"
    by blast
  from inst example_needs_fixing have 2: "\<exists>r self' self'' as.
      get_replacement example_fixer 7 = Inr (Some r, self') \<and>
      node_at (bmg self') r = Some (LogSumExpNode as) \<and>
      needs_fixing self' r = Inr False \<and>
      fix_node example_fixer 7 = Inr (self'', True) \<and>
      needs_fixing self'' r = Inr False \<and>
      needs_fixing self'' 7 = Inr False"
    by blast
  from 1 2 example_needs_fixing show ?thesis by blast
qed

theorem sharing_preserved_witness:
  "node_at (bmg example_fixer) 7 = Some (LogNode 6) \<and>
   node_at (bmg example_fixer) 6 = Some (MultiAdditionNode [3, 4, 5]) \<and>
   map (node_at (bmg example_fixer)) [3, 4, 5] = map (\<lambda>a. Some (ExpNode a)) [0, 1, 2] \<and>
   node_at (bmg example_fixer) 8 = Some (AdditionNode 3 7) \<and>
   (\<exists>r self' self''.
      get_replacement example_fixer 7 = Inr (Some r, self') \<and>
      node_at (bmg self') r = Some (LogSumExpNode [0, 1, 2]) \<and>
      node_at (bmg self') 8 = Some (AdditionNode 3 7) \<and>
      node_at (bmg self') 3 = Some (ExpNode 0) \<and>
      consumers_of (bmg self') 0 = consumers_of (bmg example_fixer) 0 @ [r] \<and>
      fix_node example_fixer 7 = Inr (self'', True) \<and>
      (\<exists>x. node_at (bmg self'') 8 = Some x \<and> inputs x ! 0 = 3) \<and>
      r \<in> set (consumers_of (bmg self'') 0))"
proof -
  have a: "node_at (bmg example_fixer) 7 = Some (LogNode 6)"
    by (simp add: example_fixer_def example_graph_def node_at_def)
  have b: "node_at (bmg example_fixer) 6 = Some (MultiAdditionNode [3, 4, 5])"
    by (simp add: example_fixer_def example_graph_def node_at_def)
  have c: "map (node_at (bmg example_fixer)) [3, 4, 5] = map (\<lambda>a. Some (ExpNode a)) [0, 1, 2]"
    by (simp add: example_fixer_def example_graph_def node_at_def)
  have d: "node_at (bmg example_fixer) 8 = Some (AdditionNode 3 7)"
    by (simp add: example_fixer_def example_graph_def node_at_def)
  have e: "node_at (bmg example_fixer) 3 = Some (ExpNode 0)"
    by (simp add: example_fixer_def example_graph_def node_at_def)
  from sharing_preserved [OF a b c] obtain r self' self'' where
    1: "get_replacement example_fixer 7 = Inr (Some r, self')" and
    2: "node_at (bmg self') r = Some (LogSumExpNode [0, 1, 2])" and
    4: "\<forall>m nd. node_at (bmg example_fixer) m = Some nd \<longrightarrow> node_at (bmg self') m = Some nd" and
    5: "\<forall>a \<in> set [0, 1, 2]. consumers_of (bmg self') a = consumers_of (bmg example_fixer) a @ [r]" and
    6: "fix_node example_fixer 7 = Inr (self'', True)" and
    7: "\<forall>x ndx. x \<noteq> 7 \<and> node_at (bmg example_fixer) x = Some ndx \<longrightarrow>
              (\<exists>ndx'. node_at (bmg self'') x = Some ndx' \<and>
                 length (inputs ndx') = length (inputs ndx) \<and>
                 (\<forall>j < length (inputs ndx).
                    inputs ndx ! j \<noteq> 7 \<longrightarrow> inputs ndx' ! j = inputs ndx ! j))" and
    9: "\<forall>a \<in> set [0, 1, 2]. a \<noteq> 7 \<longrightarrow> r \<in> set (consumers_of (bmg self'') a)"
    by blast
  from 4 d e have f: "node_at (bmg self') 8 = Some (AdditionNode 3 7)"
    "node_at (bmg self') 3 = Some (ExpNode 0)"
    by blast+
  from 5 have g: "consumers_of (bmg self') 0 = consumers_of (bmg example_fixer) 0 @ [r]"
    by simp
  from 7 [rule_format, of 8 "AdditionNode 3 7"] d
  obtain x where "node_at (bmg self'') 8 = Some x"
    "\<forall>j < 2. inputs (AdditionNode 3 7) ! j \<noteq> 7 \<longrightarrow> inputs x ! j = inputs (AdditionNode 3 7) ! j"
    by auto
  then have h: "\<exists>x. node_at (bmg self'') 8 = Some x \<and> inputs x ! 0 = 3"
    by force
  from 9 have i: "r \<in> set (consumers_of (bmg self'') 0)" by simp
  from a b c d 1 2 f g 6 h i show ?thesis by blast
qed

subsection \<open>Structure alone decides\<close>

lemma same_structure_length: "same_structure g1 g2 \<Longrightarrow> length g1 = length g2"
  unfolding same_structure_def by (metis length_map)

lemma same_structure_node_at:
  assumes "same_structure g1 g2"
  shows "map_option shape (node_at g1 x) = map_option shape (node_at g2 x)"
proof (cases "x < length g1")
  case True
  with same_structure_length [OF assms] have x2: "x < length g2" by simp
  from assms have "map (map_option shape) g1 ! x = map (map_option shape) g2 ! x"
    by (simp add: same_structure_def)
  with True x2 show ?thesis by (simp add: node_at_def)
next
  case False
  with same_structure_length [OF assms] show ?thesis by (simp add: node_at_def)
qed

lemma shape_eq_Log: "shape nd = LogNode a \<longleftrightarrow> nd = LogNode a"
  by (cases nd) auto

lemma shape_eq_Exp: "shape nd = ExpNode a \<longleftrightarrow> nd = ExpNode a"
  by (cases nd) auto

lemma shape_eq_MultiAdd: "shape nd = MultiAdditionNode xs \<longleftrightarrow> nd = MultiAdditionNode xs"
  by (cases nd) auto

lemma same_structure_sym: "same_structure g1 g2 \<Longrightarrow> same_structure g2 g1"
  by (simp add: same_structure_def)

lemma same_structure_node:
  assumes "same_structure g1 g2" and "\<forall>v. nd \<noteq> ConstantNode v" and "node_at g1 x = Some nd"
  shows "node_at g2 x = Some nd"
proof -
  from same_structure_node_at [OF assms(1), of x] assms(3)
  obtain nd2 where nd2: "node_at g2 x = Some nd2" and "shape nd2 = shape nd"
    by (cases "node_at g2 x") auto
  with assms(2) have "nd2 = nd"
    by (cases nd; cases nd2) auto
  with nd2 show ?thesis by simp
qed

lemma same_structure_pattern_imp:
  assumes s: "same_structure g1 g2"
    and n: "node_at g1 n = Some (LogNode oper)"
    and oper: "node_at g1 oper = Some (MultiAdditionNode cs)"
    and cs: "map (node_at g1) cs = map (\<lambda>a. Some (ExpNode a)) as"
  shows "node_at g2 n = Some (LogNode oper) \<and> node_at g2 oper = Some (MultiAdditionNode cs) \<and>
         map (node_at g2) cs = map (\<lambda>a. Some (ExpNode a)) as"
proof -
  have len: "length cs = length as" using cs by (metis length_map)
  have "node_at g2 (cs ! i) = Some (ExpNode (as ! i))" if "i < length cs" for i
  proof -
    from cs that len have "node_at g1 (cs ! i) = Some (ExpNode (as ! i))"
      by (metis nth_map)
    then show ?thesis by (rule same_structure_node [OF s, rotated]) simp
  qed
  with len have "map (node_at g2) cs = map (\<lambda>a. Some (ExpNode a)) as"
    by (simp add: list_eq_iff_nth_eq)
  moreover have "node_at g2 n = Some (LogNode oper)"
    using n by (rule same_structure_node [OF s, rotated]) simp
  moreover have "node_at g2 oper = Some (MultiAdditionNode cs)"
    using oper by (rule same_structure_node [OF s, rotated]) simp
  ultimately show ?thesis by simp
qed

lemma same_structure_pattern:
  assumes "same_structure g1 g2"
  shows "log_of_sum_of_exps g1 n = log_of_sum_of_exps g2 n"
  using same_structure_pattern_imp [OF assms] same_structure_pattern_imp [OF same_structure_sym [OF assms]]
  unfolding pattern_iff by blast

lemma same_structure_append:
  "same_structure g1 g2 \<Longrightarrow> same_structure (g1 @ [x]) (g2 @ [x])"
  by (simp add: same_structure_def)

text \<open>
  C8. The decisions of the fixer are structural. For two fixers whose graphs have the same
  kinds and ordered inputs, whatever the values of their constants and whatever the states
  of their typers, \<open>_needs_fixing\<close> returns the same result, and \<open>_get_replacement\<close>
  either raises the same error in both or returns the same reference in both, for the same
  node over graphs that again have the same structure; the typers are not changed.
\<close>

theorem decisions_are_structural:
  assumes "same_structure (bmg s1) (bmg s2)"
  shows "needs_fixing s1 n = needs_fixing s2 n \<and>
         (case get_replacement s1 n of
            Inl e \<Rightarrow> get_replacement s2 n = Inl e
          | Inr (r, s1') \<Rightarrow>
              (\<exists>s2'. get_replacement s2 n = Inr (r, s2') \<and>
                 same_structure (bmg s1') (bmg s2') \<and>
                 (\<forall>r'. r = Some r' \<longrightarrow> node_at (bmg s1') r' = node_at (bmg s2') r') \<and>
                 typer s1' = typer s1 \<and> typer s2' = typer s2))"
proof (cases "log_of_sum_of_exps (bmg s1) n")
  case True
  then obtain oper cs as where p1: "node_at (bmg s1) n = Some (LogNode oper)"
    "node_at (bmg s1) oper = Some (MultiAdditionNode cs)"
    "map (node_at (bmg s1)) cs = map (\<lambda>a. Some (ExpNode a)) as"
    using pattern_iff by blast
  from same_structure_pattern_imp [OF assms p1]
  have p2: "node_at (bmg s2) n = Some (LogNode oper)"
    "node_at (bmg s2) oper = Some (MultiAdditionNode cs)"
    "map (node_at (bmg s2)) cs = map (\<lambda>a. Some (ExpNode a)) as"
    by simp_all
  have len: "length (bmg s1) = length (bmg s2)"
    using assms by (rule same_structure_length)
  from get_replacement_ok [OF p1] get_replacement_ok [OF p2] len
    same_structure_append [OF assms] same_structure_pattern [OF assms, of n]
  show ?thesis
    by (simp add: needs_fixing_eq node_at_append)
next
  case False
  with same_structure_pattern [OF assms, of n] have "\<not> log_of_sum_of_exps (bmg s2) n" by simp
  with False show ?thesis
    by (simp add: needs_fixing_eq get_replacement_fail)
qed

lemma example_same_structure:
  "same_structure (bmg example_fixer) (bmg example_fixer_other_oracle)"
  by (simp add: same_structure_def example_fixer_def example_fixer_other_oracle_def
      example_graph_def example_graph_other_values_def)

theorem decisions_are_structural_witness:
  "same_structure (bmg example_fixer) (bmg example_fixer_other_oracle) \<and>
   bmg example_fixer \<noteq> bmg example_fixer_other_oracle \<and>
   typer example_fixer \<noteq> typer example_fixer_other_oracle \<and>
   needs_fixing example_fixer_other_oracle 7 = Inr True \<and>
   needs_fixing example_fixer_other_oracle 8 = needs_fixing example_fixer 8 \<and>
   (\<exists>r s2'. get_replacement example_fixer_other_oracle 7 = Inr (Some r, s2') \<and>
      node_at (bmg s2') r = Some (LogSumExpNode [0, 1, 2]))"
proof -
  note st = example_same_structure
  have d1: "bmg example_fixer \<noteq> bmg example_fixer_other_oracle"
    by (simp add: example_fixer_def example_fixer_other_oracle_def
      example_graph_def example_graph_other_values_def)
  have "typer example_fixer 0 \<noteq> typer example_fixer_other_oracle 0"
    by (simp add: example_fixer_def example_fixer_other_oracle_def)
  then have d2: "typer example_fixer \<noteq> typer example_fixer_other_oracle"
    by metis
  have g1: "get_replacement example_fixer 7 =
     Inr (Some 9, example_fixer\<lparr>bmg := bmg example_fixer @ [Some (LogSumExpNode [0, 1, 2])]\<rparr>)"
    using get_replacement_ok [of example_fixer 7 6 "[3, 4, 5]" "[0, 1, 2]"]
    by (simp add: example_fixer_def example_graph_def node_at_def)
  from decisions_are_structural [OF st, of 7] example_needs_fixing
  have a: "needs_fixing example_fixer_other_oracle 7 = Inr True" by simp
  from decisions_are_structural [OF st, of 8]
  have b: "needs_fixing example_fixer_other_oracle 8 = needs_fixing example_fixer 8" by simp
  from decisions_are_structural [OF st, of 7] g1
  obtain s2' where "get_replacement example_fixer_other_oracle 7 = Inr (Some 9, s2')"
    "node_at (bmg example_fixer @ [Some (LogSumExpNode [0, 1, 2])]) 9 = node_at (bmg s2') 9"
    by auto
  moreover have "node_at (bmg example_fixer @ [Some (LogSumExpNode [0, 1, 2])]) 9 =
      Some (LogSumExpNode [0, 1, 2])"
    by (simp add: example_fixer_def example_graph_def node_at_def)
  ultimately have c: "\<exists>r s2'. get_replacement example_fixer_other_oracle 7 = Inr (Some r, s2') \<and>
      node_at (bmg s2') r = Some (LogSumExpNode [0, 1, 2])"
    by auto
  from st d1 d2 a b c show ?thesis by blast
qed

subsection \<open>Memoization of the proposers\<close>

lemma memo_inv_init: "memo_inv (length h) (init cls kwargs) h"
  by (simp add: memo_inv_def init_def)

lemma loop_step:
  assumes inv: "memo_inv k self h"
  shows "\<exists>self' h'. get_proposers_loop self h ts acc =
            Inr (acc @ map (\<lambda>rv. the (proposers self' rv)) ts, self', h') \<and>
          memo_inv k self' h' \<and>
          proposers self \<subseteq>\<^sub>m proposers self' \<and>
          dom (proposers self') = dom (proposers self) \<union> set ts \<and>
          take (length h) h' = h \<and>
          proposer_class self' = proposer_class self \<and>
          inference_args self' = inference_args self"
  using inv
proof (induction ts arbitrary: self h acc)
  case Nil
  then show ?case by simp
next
  case (Cons node rest)
  show ?case
  proof (cases "proposers self node")
    case None
    let ?p = "length h"
    let ?h1 = "h @ [\<lparr>p_class = proposer_class self, p_node = node, p_args = inference_args self\<rparr>]"
    let ?s1 = "self\<lparr>proposers := (proposers self)(node \<mapsto> ?p)\<rparr>"
    from None Cons.prems have fresh: "node \<notin> set (map p_node (drop k h))"
      by (auto simp: memo_inv_def)
    have inv1: "memo_inv k ?s1 ?h1"
      using Cons.prems None fresh
      by (auto simp: memo_inv_def nth_append intro: less_SucI)
    from Cons.IH [OF inv1, of "acc @ [?p]"] obtain self' h' where
      res: "get_proposers_loop ?s1 ?h1 rest (acc @ [?p]) =
              Inr ((acc @ [?p]) @ map (\<lambda>rv. the (proposers self' rv)) rest, self', h')"
      and inv': "memo_inv k self' h'"
      and le: "proposers ?s1 \<subseteq>\<^sub>m proposers self'"
      and dom': "dom (proposers self') = dom (proposers ?s1) \<union> set rest"
      and tk: "take (length ?h1) h' = ?h1"
      and cls: "proposer_class self' = proposer_class ?s1" "inference_args self' = inference_args ?s1"
      by blast
    from le have node': "proposers self' node = Some ?p"
      by (auto simp: map_le_def)
    have le0: "proposers self \<subseteq>\<^sub>m proposers self'"
      unfolding map_le_def
    proof
      fix a assume a: "a \<in> dom (proposers self)"
      with None have "a \<noteq> node" by auto
      moreover from a have "a \<in> dom (proposers ?s1)" by simp
      ultimately show "proposers self a = proposers self' a"
        using le by (auto simp: map_le_def split: if_splits)
    qed
    have "take (length h) (take (length ?h1) h') = take (length h) h'"
      by (simp add: min_def)
    with tk have tk0: "take (length h) h' = h" by simp
    show ?thesis
      apply (rule exI [of _ self'])
      apply (rule exI [of _ h'])
      using None res inv' le0 dom' tk0 cls node'
      by (auto simp: construct_def)
  next
    case (Some p)
    from Cons.IH [OF Cons.prems, of "acc @ [p]"] obtain self' h' where
      res: "get_proposers_loop self h rest (acc @ [p]) =
              Inr ((acc @ [p]) @ map (\<lambda>rv. the (proposers self' rv)) rest, self', h')"
      and inv': "memo_inv k self' h'"
      and le: "proposers self \<subseteq>\<^sub>m proposers self'"
      and dom': "dom (proposers self') = dom (proposers self) \<union> set rest"
      and tk: "take (length h) h' = h"
      and cls: "proposer_class self' = proposer_class self" "inference_args self' = inference_args self"
      by blast
    from le Some have node': "proposers self' node = Some p"
      by (auto simp: map_le_def dom_def)
    show ?thesis
      apply (rule exI [of _ self'])
      apply (rule exI [of _ h'])
      using Some res inv' le dom' tk cls node'
      by auto
  qed
qed

lemma map_le_lookups:
  assumes "m \<subseteq>\<^sub>m m'" and "map m ts = map Some ps"
  shows "map m' ts = map Some ps"
proof -
  have "m' t = m t" if "t \<in> set ts" for t
  proof -
    from that assms(2) have "m t \<in> set (map Some ps)" by (metis image_eqI set_map)
    then have "t \<in> dom m" by auto
    with assms(1) show ?thesis by (simp add: map_le_def)
  qed
  then have "map m' ts = map m ts" by simp
  with assms(2) show ?thesis by simp
qed

lemma get_proposers_inv:
  assumes "memo_inv k self h"
  shows "\<exists>ps self' h'. get_proposers self h world ts num = Inr (ps, self', h') \<and>
          map (proposers self') ts = map Some ps \<and>
          memo_inv k self' h' \<and>
          proposers self \<subseteq>\<^sub>m proposers self' \<and>
          dom (proposers self') = dom (proposers self) \<union> set ts \<and>
          take (length h) h' = h \<and>
          proposer_class self' = proposer_class self \<and>
          inference_args self' = inference_args self"
proof -
  from loop_step [OF assms, of ts "[]"] obtain self' h' where
    res: "get_proposers_loop self h ts [] = Inr (map (\<lambda>rv. the (proposers self' rv)) ts, self', h')"
    and rest: "memo_inv k self' h'" "proposers self \<subseteq>\<^sub>m proposers self'"
      "dom (proposers self') = dom (proposers self) \<union> set ts" "take (length h) h' = h"
      "proposer_class self' = proposer_class self" "inference_args self' = inference_args self"
    by auto
  have "proposers self' t = Some (the (proposers self' t))" if "t \<in> set ts" for t
  proof -
    from rest(3) that have "t \<in> dom (proposers self')" by blast
    then show ?thesis by auto
  qed
  then have "map (proposers self') ts = map Some (map (\<lambda>rv. the (proposers self' rv)) ts)"
    by simp
  with res rest show ?thesis
    by (simp add: get_proposers_def)
qed

lemma calls_inv:
  assumes "memo_inv k self h"
  shows "\<exists>pss self' h'. calls self h cs = Inr (pss, self', h') \<and>
          length pss = length cs \<and>
          (\<forall>i < length cs. map (proposers self') (fst (snd (cs ! i))) = map Some (pss ! i)) \<and>
          memo_inv k self' h' \<and>
          proposers self \<subseteq>\<^sub>m proposers self' \<and>
          dom (proposers self') = dom (proposers self) \<union> (\<Union>c \<in> set cs. set (fst (snd c))) \<and>
          take (length h) h' = h \<and>
          proposer_class self' = proposer_class self \<and>
          inference_args self' = inference_args self"
  using assms
proof (induction cs arbitrary: self h)
  case Nil
  then show ?case by simp
next
  case (Cons c cs)
  obtain world ts num where c: "c = (world, ts, num)" by (cases c) auto
  from get_proposers_inv [OF Cons.prems, of world ts num] obtain ps self1 h1 where
    g: "get_proposers self h world ts num = Inr (ps, self1, h1)"
    and ps: "map (proposers self1) ts = map Some ps"
    and inv1: "memo_inv k self1 h1"
    and le1: "proposers self \<subseteq>\<^sub>m proposers self1"
    and dom1: "dom (proposers self1) = dom (proposers self) \<union> set ts"
    and tk1: "take (length h) h1 = h"
    and cls1: "proposer_class self1 = proposer_class self" "inference_args self1 = inference_args self"
    by blast
  from Cons.IH [OF inv1] obtain pss self' h' where
    r: "calls self1 h1 cs = Inr (pss, self', h')"
    and len: "length pss = length cs"
    and look: "\<forall>i < length cs. map (proposers self') (fst (snd (cs ! i))) = map Some (pss ! i)"
    and inv': "memo_inv k self' h'"
    and le': "proposers self1 \<subseteq>\<^sub>m proposers self'"
    and dom': "dom (proposers self') = dom (proposers self1) \<union> (\<Union>c \<in> set cs. set (fst (snd c)))"
    and tk': "take (length h1) h' = h1"
    and cls': "proposer_class self' = proposer_class self1" "inference_args self' = inference_args self1"
    by blast
  have 1: "calls self h (c # cs) = Inr (ps # pss, self', h')"
    using c g r by simp
  have 2: "length (ps # pss) = length (c # cs)" using len by simp
  have ps': "map (proposers self') ts = map Some ps"
    using le' ps by (rule map_le_lookups)
  have 3: "\<forall>i < length (c # cs).
             map (proposers self') (fst (snd ((c # cs) ! i))) = map Some ((ps # pss) ! i)"
  proof (intro allI impI)
    fix i assume "i < length (c # cs)"
    then show "map (proposers self') (fst (snd ((c # cs) ! i))) = map Some ((ps # pss) ! i)"
      using ps' look c by (cases i) auto
  qed
  have 4: "proposers self \<subseteq>\<^sub>m proposers self'"
    using le1 le' by (rule map_le_trans)
  have 5: "dom (proposers self') = dom (proposers self) \<union> (\<Union>c \<in> set (c # cs). set (fst (snd c)))"
    using dom1 dom' c by auto
  from tk1 have "length (take (length h) h1) = length h" by simp
  then have "length h \<le> length h1" by simp
  then have "take (length h) (take (length h1) h') = take (length h) h'"
    by (simp add: min_def)
  with tk' tk1 have 6: "take (length h) h' = h" by simp
  show ?case
    apply (rule exI [of _ "ps # pss"])
    apply (rule exI [of _ self'])
    apply (rule exI [of _ h'])
    using 1 2 3 inv' 4 5 6 cls1 cls' by simp
qed

text \<open>
  C10. Starting from a new \<open>SingleSiteInference\<close> object, every sequence of calls of
  \<open>get_proposers\<close> returns (no \<open>KeyError\<close>). Each call returns one proposer per element
  of its \<open>target_rvs\<close>, in order, namely the entry of \<open>self._proposers\<close> for it, so that all
  calls return the same proposer for the same random variable. The objects constructed in
  the course of the calls are one for each random variable asked for, none twice, and the
  proposer of a random variable is the object made for it from \<open>proposer_class\<close> and
  \<open>inference_args\<close>.
\<close>

theorem get_proposers_memoizes:
  "\<exists>pss self' h'.
     calls (init cls kwargs) h cs = Inr (pss, self', h') \<and>
     length pss = length cs \<and>
     (\<forall>i < length cs. map (proposers self') (fst (snd (cs ! i))) = map Some (pss ! i)) \<and>
     take (length h) h' = h \<and>
     distinct (map p_node (drop (length h) h')) \<and>
     set (map p_node (drop (length h) h')) = (\<Union>c \<in> set cs. set (fst (snd c))) \<and>
     (\<forall>rv p. proposers self' rv = Some p \<longrightarrow>
        length h \<le> p \<and> p < length h' \<and>
        h' ! p = \<lparr>p_class = cls, p_node = rv, p_args = kwargs\<rparr>)"
proof -
  from calls_inv [OF memo_inv_init, of cls kwargs h cs] obtain pss self' h' where
    1: "calls (init cls kwargs) h cs = Inr (pss, self', h')"
    and 2: "length pss = length cs"
    and 3: "\<forall>i < length cs. map (proposers self') (fst (snd (cs ! i))) = map Some (pss ! i)"
    and inv: "memo_inv (length h) self' h'"
    and dom: "dom (proposers self') =
        dom (proposers (init cls kwargs :: ('a, 'b, 'c) SingleSiteInference)) \<union>
        (\<Union>c \<in> set cs. set (fst (snd c)))"
    and 4: "take (length h) h' = h"
    and cls: "proposer_class self' = proposer_class (init cls kwargs :: ('a, 'b, 'c) SingleSiteInference)"
      "inference_args self' = inference_args (init cls kwargs :: ('a, 'b, 'c) SingleSiteInference)"
    by blast
  from inv have 5: "distinct (map p_node (drop (length h) h'))"
    by (simp add: memo_inv_def)
  from inv dom have 6: "set (map p_node (drop (length h) h')) = (\<Union>c \<in> set cs. set (fst (snd c)))"
    by (simp add: memo_inv_def init_def)
  from inv cls have 7: "\<forall>rv p. proposers self' rv = Some p \<longrightarrow>
        length h \<le> p \<and> p < length h' \<and>
        h' ! p = \<lparr>p_class = cls, p_node = rv, p_args = kwargs\<rparr>"
    by (simp add: memo_inv_def init_def)
  from 1 2 3 4 5 6 7 show ?thesis by blast
qed

theorem get_proposers_memoizes_witness:
  "\<exists>pss self' h'.
     calls (init ''NUTS'' [(''step'', 1::int)]) []
       [((), [1::nat, 2], 0), ((), [2, 3, 1], 5)] = Inr (pss, self', h') \<and>
     length pss = 2 \<and> length (pss ! 0) = 2 \<and> length (pss ! 1) = 3 \<and>
     pss ! 0 ! 1 = pss ! 1 ! 0 \<and> pss ! 0 ! 0 = pss ! 1 ! 2 \<and>
     distinct (map p_node h') \<and> set (map p_node h') = {1, 2, 3}"
proof -
  let ?cs = "[((), [1::nat, 2], 0::int), ((), [2, 3, 1], 5)]"
  let ?h0 = "[] :: (nat, string, (string \<times> int) list) heap"
  from get_proposers_memoizes [of "''NUTS''" "[(''step'', 1::int)]" ?h0 ?cs]
  obtain pss self' h' where
    1: "calls (init ''NUTS'' [(''step'', 1::int)]) ?h0 ?cs = Inr (pss, self', h')"
    and 2: "length pss = length ?cs"
    and 3: "\<forall>i < length ?cs. map (proposers self') (fst (snd (?cs ! i))) = map Some (pss ! i)"
    and 5: "distinct (map p_node (drop (length ?h0) h'))"
    and 6: "set (map p_node (drop (length ?h0) h')) = (\<Union>c \<in> set ?cs. set (fst (snd c)))"
    by (elim exE conjE) (rule that; assumption)
  from 3 [rule_format, of 0] have a: "map (proposers self') [1, 2] = map Some (pss ! 0)"
    by simp
  from 3 [rule_format, of 1] have b: "map (proposers self') [2, 3, 1] = map Some (pss ! 1)"
    by simp
  from a have "length (map Some (pss ! 0)) = length (map (proposers self') [1, 2])" by simp
  then have "length (pss ! 0) = Suc (Suc 0)" by simp
  then obtain x y where p0: "pss ! 0 = [x, y]"
    by (auto simp: length_Suc_conv)
  from b have "length (map Some (pss ! 1)) = length (map (proposers self') [2, 3, 1])" by simp
  then have "length (pss ! 1) = Suc (Suc (Suc 0))" by simp
  then obtain u v w where p1: "pss ! 1 = [u, v, w]"
    by (auto simp: length_Suc_conv)
  from a p0 have a0: "proposers self' 1 = Some x" "proposers self' 2 = Some y" by simp_all
  from b p1 have b0: "proposers self' 2 = Some u" "proposers self' 1 = Some w" by simp_all
  from a0 b0 have "y = u" "x = w" by simp_all
  with p0 p1 have eq: "pss ! 0 ! 1 = pss ! 1 ! 0" "pss ! 0 ! 0 = pss ! 1 ! 2" by simp_all
  from p0 p1 have la: "length (pss ! 0) = 2" and lb: "length (pss ! 1) = 3" by simp_all
  from 6 have s: "set (map p_node h') = {1, 2, 3}" by auto
  from 5 have d: "distinct (map p_node h')" by simp
  from 2 have l: "length pss = 2" by simp
  show ?thesis
    apply (rule exI [of _ pss])
    apply (rule exI [of _ self'])
    apply (rule exI [of _ h'])
    using 1 l la lb eq d s by simp
qed

end
